theory Spec2Isabelle
  imports Main "HOL-Library.AList"
begin

section \<open>Data model of the signaling server (src/index.ts)\<close>

text \<open>
  The transport (the \<open>ws\<close> socket), the JSON codec, the clock and the uuid generator are
  external to the repository. Their results enter the model as explicit inputs:
  a socket carries its \<open>readyState\<close> and whether \<open>send\<close> raises, a frame is what
  \<open>JSON.parse\<close> makes of its data, and \<open>Date.now()\<close> and \<open>uuidv4()\<close> are
  arguments of the handlers. Times are milliseconds, as in the source.
\<close>

datatype ready_state = CONNECTING | OPEN | CLOSING | CLOSED

text \<open>\<open>interface SignalMessage\<close>; the session descriptions and candidates are opaque.\<close>

record SignalMessage =
  type :: string
  source :: "string option"
  target :: "string option"
  peerId :: "string option"
  offer :: "string option"
  answer :: "string option"
  candidate :: "string option"

text \<open>The objects handed to \<open>socket.send\<close>: the four server messages and a relayed message.\<close>

datatype out_msg =
    Welcome string
  | Registered string
  | ErrorMsg string
  | Peers "string list"
  | Relayed SignalMessage

text \<open>
  A socket as the server sees it: \<open>readyState\<close>, whether a call of \<open>send\<close> raises
  (decided by the transport), the messages written so far, and whether \<open>terminate()\<close>
  has been called on it.
\<close>

record WebSocket =
  readyState :: ready_state
  sendThrows :: bool
  sent :: "out_msg list"
  terminated :: bool

text \<open>\<open>interface SignalClient\<close>; the field \<open>id\<close> is named \<open>clientId\<close> here.\<close>

record SignalClient =
  clientId :: string
  socket :: WebSocket
  lastSeen :: int

datatype level = Info | Warn | Err

text \<open>One constructor for each call of \<open>this.log\<close>, with the interpolated values.\<close>

datatype log_text =
    NewConnection string
  | SocketError string
  | UnknownType string string
  | ParseError string
  | MissingPeerId string
  | IdInUse string string
  | RegisteredAs string
  | NoTarget
  | UnknownTarget string
  | Relaying string "string option" string
  | SentPeerList string nat
  | BroadcastedPeerList nat
  | Disconnected string
  | SendError string
  | BroadcastError string
  | TimedOut string int

text \<open>
  The server: \<open>clients\<close> is the \<open>Map\<close> in insertion order, from id to a reference to a
  client object; \<open>objs\<close> is the store of the client objects ever created (a reference is
  an index), since the event handlers of a connection keep their client object after its
  registry entry is gone; \<open>console\<close> is what was logged.
\<close>

record SignalingServer =
  clients :: "(string \<times> nat) list"
  objs :: "SignalClient list"
  console :: "(level \<times> log_text) list"

datatype exn = SendFailure

text \<open>
  The data of a frame, by what \<open>JSON.parse\<close> does with it: it raises
  (\<open>Malformed\<close>), it returns \<open>null\<close>, on which reading \<open>message.type\<close> raises
  (\<open>ParsedNull\<close>), or it returns an object of the declared interface
  (\<open>Parsed\<close>).
\<close>

datatype frame = Malformed | ParsedNull | Parsed SignalMessage

section \<open>Operations\<close>

definition MAX_IDLE_TIME :: int where
  "MAX_IDLE_TIME = 90000"

definition log :: "log_text \<Rightarrow> level \<Rightarrow> SignalingServer \<Rightarrow> SignalingServer" where
  "log txt lvl s = s\<lparr>console := console s @ [(lvl, txt)]\<rparr>"

text \<open>\<open>socket.send\<close>: raises or appends to what the socket has written.\<close>

definition send :: "out_msg \<Rightarrow> WebSocket \<Rightarrow> exn + WebSocket" where
  "send m sk = (if sendThrows sk then Inl SendFailure else Inr (sk\<lparr>sent := sent sk @ [m]\<rparr>))"

definition terminate :: "WebSocket \<Rightarrow> WebSocket" where
  "terminate sk = sk\<lparr>terminated := True\<rparr>"

text \<open>JavaScript's \<open>!x\<close> on an optional string: true for \<open>undefined\<close> and for \<open>""\<close>.\<close>

definition falsy :: "string option \<Rightarrow> bool" where
  "falsy x = (case x of None \<Rightarrow> True | Some v \<Rightarrow> v = [])"

text \<open>\<open>broadcast\<close>: every registry entry in turn; a failing send is logged and skipped.\<close>

definition broadcast_body :: "out_msg \<Rightarrow> nat \<Rightarrow> SignalingServer \<Rightarrow> SignalingServer" where
  "broadcast_body m r s =
     (let c = objs s ! r in
      if readyState (socket c) = OPEN then
        (case send m (socket c) of
           Inr sk \<Rightarrow> s\<lparr>objs := (objs s)[r := c\<lparr>socket := sk\<rparr>]\<rparr>
         | Inl e \<Rightarrow> log (BroadcastError (clientId c)) Warn s)
      else s)"

fun broadcast_loop :: "out_msg \<Rightarrow> nat list \<Rightarrow> SignalingServer \<Rightarrow> SignalingServer" where
  "broadcast_loop m [] s = s"
| "broadcast_loop m (r # rs) s = broadcast_loop m rs (broadcast_body m r s)"

definition broadcast :: "out_msg \<Rightarrow> SignalingServer \<Rightarrow> SignalingServer" where
  "broadcast m s = broadcast_loop m (map snd (clients s)) s"

definition broadcastPeerList :: "SignalingServer \<Rightarrow> SignalingServer" where
  "broadcastPeerList s =
     (let peerIds = map fst (clients s) in
      log (BroadcastedPeerList (length peerIds)) Info (broadcast (Peers peerIds) s))"

definition handleDisconnect :: "nat \<Rightarrow> SignalingServer \<Rightarrow> SignalingServer" where
  "handleDisconnect r s =
     (let s1 = log (Disconnected (clientId (objs s ! r))) Info s;
          s2 = s1\<lparr>clients := AList.delete (clientId (objs s1 ! r)) (clients s1)\<rparr>
      in broadcastPeerList s2)"

definition sendToClient :: "nat \<Rightarrow> out_msg \<Rightarrow> SignalingServer \<Rightarrow> SignalingServer" where
  "sendToClient r m s =
     (let c = objs s ! r in
      if readyState (socket c) = OPEN then
        (case send m (socket c) of
           Inr sk \<Rightarrow> s\<lparr>objs := (objs s)[r := c\<lparr>socket := sk\<rparr>]\<rparr>
         | Inl e \<Rightarrow> handleDisconnect r (log (SendError (clientId c)) Err s))
      else s)"

definition sendPeerList :: "nat \<Rightarrow> SignalingServer \<Rightarrow> SignalingServer" where
  "sendPeerList r s =
     (let peerIds = map fst (clients s);
          s1 = sendToClient r (Peers peerIds) s
      in log (SentPeerList (clientId (objs s1 ! r)) (length peerIds)) Info s1)"

definition handleRegister :: "SignalMessage \<Rightarrow> nat \<Rightarrow> SignalingServer \<Rightarrow> SignalingServer" where
  "handleRegister message r s =
     (case peerId message of
        None \<Rightarrow> log (MissingPeerId (clientId (objs s ! r))) Warn s
      | Some newPeerId \<Rightarrow>
          if falsy (Some newPeerId) then log (MissingPeerId (clientId (objs s ! r))) Warn s
          else if (case map_of (clients s) newPeerId of
                     None \<Rightarrow> False
                   | Some r' \<Rightarrow> clientId (objs s ! r') \<noteq> clientId (objs s ! r))
          then sendToClient r (ErrorMsg ''Peer ID already in use'')
                 (log (IdInUse (clientId (objs s ! r)) newPeerId) Warn s)
          else
            (let s1 = s\<lparr>clients := AList.delete (clientId (objs s ! r)) (clients s)\<rparr>;
                 s2 = s1\<lparr>objs := (objs s1)[r := (objs s1 ! r)\<lparr>clientId := newPeerId\<rparr>]\<rparr>;
                 s3 = s2\<lparr>clients := AList.update newPeerId r (clients s2)\<rparr>;
                 s4 = log (RegisteredAs newPeerId) Info s3;
                 s5 = sendToClient r (Registered newPeerId) s4
             in broadcastPeerList s5))"

definition relayMessage :: "SignalMessage \<Rightarrow> SignalingServer \<Rightarrow> SignalingServer" where
  "relayMessage message s =
     (case target message of
        None \<Rightarrow> log NoTarget Warn s
      | Some t \<Rightarrow>
          if falsy (Some t) then log NoTarget Warn s
          else (case map_of (clients s) t of
                  None \<Rightarrow> log (UnknownTarget t) Warn s
                | Some targetClient \<Rightarrow>
                    sendToClient targetClient (Relayed message)
                      (log (Relaying (type message) (source message) t) Info s)))"

text \<open>\<open>client.lastSeen = Date.now()\<close>\<close>

definition touch :: "nat \<Rightarrow> int \<Rightarrow> SignalingServer \<Rightarrow> SignalingServer" where
  "touch r now s = s\<lparr>objs := (objs s)[r := (objs s ! r)\<lparr>lastSeen := now\<rparr>]\<rparr>"

text \<open>The \<open>switch (message.type)\<close> of \<open>handleMessage\<close>.\<close>

definition dispatch :: "SignalMessage \<Rightarrow> nat \<Rightarrow> SignalingServer \<Rightarrow> SignalingServer" where
  "dispatch message r s =
     (if type message = ''register'' then handleRegister message r s
      else if type message = ''offer'' \<or> type message = ''answer''
              \<or> type message = ''ice-candidate'' then relayMessage message s
      else if type message = ''get-peers'' then sendPeerList r s
      else if type message = ''heartbeat'' then s
      else log (UnknownType (clientId (objs s ! r)) (type message)) Warn s)"

text \<open>
  \<open>handleMessage\<close>: one \<open>try\<close> holds \<open>JSON.parse\<close>, the update of
  \<open>lastSeen\<close> and the \<open>switch\<close>, in this order, and its \<open>catch\<close> logs. When
  \<open>JSON.parse\<close> raises, control passes the update of \<open>lastSeen\<close>; when it returns
  \<open>null\<close>, \<open>lastSeen\<close> is updated and the \<open>switch\<close> raises on
  \<open>message.type\<close>. The handlers called from the \<open>switch\<close> raise nothing.
\<close>

definition handleMessage :: "frame \<Rightarrow> nat \<Rightarrow> int \<Rightarrow> SignalingServer \<Rightarrow> SignalingServer" where
  "handleMessage messageData r now s =
     (case messageData of
        Malformed \<Rightarrow> log (ParseError (clientId (objs s ! r))) Err s
      | ParsedNull \<Rightarrow>
          (let s1 = touch r now s in log (ParseError (clientId (objs s1 ! r))) Err s1)
      | Parsed message \<Rightarrow> dispatch message r (touch r now s))"

text \<open>The \<open>connection\<close> handler of \<open>setupWebSocketServer\<close>.\<close>

definition connection :: "WebSocket \<Rightarrow> string \<Rightarrow> int \<Rightarrow> SignalingServer \<Rightarrow> SignalingServer" where
  "connection sk tempId now s =
     (let s1 = log (NewConnection tempId) Info s;
          r = length (objs s1);
          s2 = s1\<lparr>objs := objs s1 @ [\<lparr>clientId = tempId, socket = sk, lastSeen = now\<rparr>]\<rparr>;
          s3 = s2\<lparr>clients := AList.update tempId r (clients s2)\<rparr>
      in sendToClient r (Welcome tempId) s3)"

text \<open>
  The interval callback of \<open>startHeartbeatCheck\<close>: the loop over the entries, each entry
  deleted while it is the current one, then the broadcast.
\<close>

definition sweep_body :: "int \<Rightarrow> string \<Rightarrow> nat \<Rightarrow> SignalingServer \<Rightarrow> SignalingServer" where
  "sweep_body now k r s =
     (let c = objs s ! r in
      if now - lastSeen c > MAX_IDLE_TIME then
        (let s1 = log (TimedOut k ((now - lastSeen c) div 1000)) Warn s;
             s2 = s1\<lparr>objs := (objs s1)[r := c\<lparr>socket := terminate (socket c)\<rparr>]\<rparr>
         in s2\<lparr>clients := AList.delete k (clients s2)\<rparr>)
      else s)"

fun sweep :: "int \<Rightarrow> (string \<times> nat) list \<Rightarrow> SignalingServer \<Rightarrow> SignalingServer" where
  "sweep now [] s = s"
| "sweep now ((k, r) # es) s = sweep now es (sweep_body now k r s)"

definition heartbeatCheck :: "int \<Rightarrow> SignalingServer \<Rightarrow> SignalingServer" where
  "heartbeatCheck now s = broadcastPeerList (sweep now (clients s) s)"

section \<open>Events\<close>

text \<open>
  What the server reacts to, one handler run at a time: a new connection (with the socket,
  the uuid and the time), a frame, \<open>close\<close> or \<open>error\<close> on the socket of a client object,
  a tick of the interval timer, and a change of a socket's transport condition.
\<close>

datatype event =
    Connection WebSocket string int
  | Message nat frame int
  | Close nat
  | Error nat
  | Heartbeat int
  | Transport nat ready_state bool

definition transport :: "nat \<Rightarrow> ready_state \<Rightarrow> bool \<Rightarrow> SignalingServer \<Rightarrow> SignalingServer" where
  "transport r st th s =
     s\<lparr>objs := (objs s)[r := (objs s ! r)\<lparr>socket := (socket (objs s ! r))\<lparr>readyState := st, sendThrows := th\<rparr>\<rparr>]\<rparr>"

fun step :: "SignalingServer \<Rightarrow> event \<Rightarrow> SignalingServer" where
  "step s (Connection sk tempId now) = connection sk tempId now s"
| "step s (Message r f now) = (if r < length (objs s) then handleMessage f r now s else s)"
| "step s (Close r) = (if r < length (objs s) then handleDisconnect r s else s)"
| "step s (Error r) =
     (if r < length (objs s)
      then handleDisconnect r (log (SocketError (clientId (objs s ! r))) Err s) else s)"
| "step s (Heartbeat now) = heartbeatCheck now s"
| "step s (Transport r st th) = (if r < length (objs s) then transport r st th s else s)"

definition run :: "event list \<Rightarrow> SignalingServer \<Rightarrow> SignalingServer" where
  "run evs s = foldl step s evs"

definition init :: SignalingServer where
  "init = \<lparr>clients = [], objs = [], console = []\<rparr>"

definition fresh_socket :: WebSocket where
  "fresh_socket = \<lparr>readyState = OPEN, sendThrows = False, sent = [], terminated = False\<rparr>"

section \<open>Auxiliary notions\<close>

text \<open>
  The registry invariant: the keys of the \<open>Map\<close> are pairwise different, every entry
  refers to an existing client object, and that object's \<open>id\<close> is the key.
\<close>

definition registry_ok :: "SignalingServer \<Rightarrow> bool" where
  "registry_ok s \<longleftrightarrow>
     distinct (map fst (clients s)) \<and>
     list_all (\<lambda>(k, r). r < length (objs s) \<and> clientId (objs s ! r) = k) (clients s)"

text \<open>Two client objects that differ at most in what their sockets have written.\<close>

definition same_frame :: "SignalClient \<Rightarrow> SignalClient \<Rightarrow> bool" where
  "same_frame c c' \<longleftrightarrow>
     c'\<lparr>socket := (socket c')\<lparr>sent := []\<rparr>\<rparr> = c\<lparr>socket := (socket c)\<lparr>sent := []\<rparr>\<rparr>"

text \<open>
  The state of \<open>handleRegister\<close> after the old entry is deleted, the id is changed and
  the new entry is set, before the confirmation is sent.
\<close>

definition reassigned :: "string \<Rightarrow> nat \<Rightarrow> SignalingServer \<Rightarrow> SignalingServer" where
  "reassigned p r s =
     s\<lparr>objs := (objs s)[r := (objs s ! r)\<lparr>clientId := p\<rparr>],
       clients := AList.update p r (AList.delete (clientId (objs s ! r)) (clients s))\<rparr>"

section \<open>Concrete inputs\<close>

text \<open>Messages, event traces and states at which the theorems below are evaluated.\<close>

definition msg :: "string \<Rightarrow> SignalMessage" where
  "msg ty = \<lparr>type = ty, source = None, target = None, peerId = None,
              offer = None, answer = None, candidate = None\<rparr>"

definition register_msg :: "string \<Rightarrow> SignalMessage" where
  "register_msg p = (msg ''register'')\<lparr>peerId := Some p\<rparr>"

definition offer_msg :: "string \<Rightarrow> string \<Rightarrow> SignalMessage" where
  "offer_msg src tgt =
     (msg ''offer'')\<lparr>source := Some src, target := Some tgt, offer := Some ''sdp''\<rparr>"

text \<open>One client has connected at time 0.\<close>

definition one_client :: SignalingServer where
  "one_client = run [Connection fresh_socket ''temp-a'' 0] init"


text \<open>Two clients have connected, at times 0 and 50000.\<close>

definition two_clients :: SignalingServer where
  "two_clients = run [Connection fresh_socket ''temp-a'' 0,
                      Connection fresh_socket ''temp-b'' 50000] init"

text \<open>
  The client that connected first has registered as alice; a second client has connected.
\<close>

definition alice_and_guest :: SignalingServer where
  "alice_and_guest =
     run [Connection fresh_socket ''temp-a'' 0,
          Message 0 (Parsed (register_msg ''alice'')) 10,
          Connection fresh_socket ''temp-b'' 20] init"

text \<open>As \<open>alice_and_guest\<close>, and then every send to the second client fails.\<close>

definition guest_unreachable :: SignalingServer where
  "guest_unreachable =
     run [Connection fresh_socket ''temp-a'' 0,
          Message 0 (Parsed (register_msg ''alice'')) 10,
          Connection fresh_socket ''temp-b'' 20,
          Transport 1 OPEN True] init"

text \<open>As \<open>alice_and_guest\<close>, and then the socket of alice has left the open state.\<close>

definition alice_closing :: SignalingServer where
  "alice_closing =
     run [Connection fresh_socket ''temp-a'' 0,
          Message 0 (Parsed (register_msg ''alice'')) 10,
          Connection fresh_socket ''temp-b'' 20,
          Transport 0 CLOSING False] init"

text \<open>
  The first client is registered as alice, a second client connects, the reply to a
  get-peers of the first client fails (so \<open>sendToClient\<close> removes the entry alice,
  the socket staying open), and the second client registers as alice.
\<close>

definition stale_alice :: SignalingServer where
  "stale_alice =
     run [Connection fresh_socket ''temp-a'' 0,
          Message 0 (Parsed (register_msg ''alice'')) 10,
          Connection fresh_socket ''temp-b'' 20,
          Transport 0 OPEN True,
          Message 0 (Parsed (msg ''get-peers'')) 30,
          Transport 0 OPEN False,
          Message 1 (Parsed (register_msg ''alice'')) 40] init"

text \<open>
  The first client is registered as alice, a second client connects, the first socket
  reports an error (the entry alice is removed), and the second client registers as alice;
  the \<open>close\<close> event of the first socket is still to come.
\<close>

definition before_late_close :: SignalingServer where
  "before_late_close =
     run [Connection fresh_socket ''temp-a'' 0,
          Message 0 (Parsed (register_msg ''alice'')) 10,
          Connection fresh_socket ''temp-b'' 20,
          Error 0,
          Message 1 (Parsed (register_msg ''alice'')) 40] init"

section \<open>Basic facts\<close>

lemma log_clients [simp]: "clients (log t l s) = clients s"
  by (simp add: log_def)

lemma log_objs [simp]: "objs (log t l s) = objs s"
  by (simp add: log_def)

lemma same_frame_refl [simp]: "same_frame c c"
  by (simp add: same_frame_def)

lemma same_frame_trans: "same_frame a b \<Longrightarrow> same_frame b c \<Longrightarrow> same_frame a c"
  by (simp add: same_frame_def)

lemma same_frame_sent [simp]: "same_frame c (c\<lparr>socket := (socket c)\<lparr>sent := ms\<rparr>\<rparr>)"
  by (simp add: same_frame_def)

lemma same_frame_fields:
  assumes "same_frame c c'"
  shows "clientId c' = clientId c" and "lastSeen c' = lastSeen c"
    and "readyState (socket c') = readyState (socket c)"
    and "sendThrows (socket c') = sendThrows (socket c)"
    and "terminated (socket c') = terminated (socket c)"
proof -
  let ?f = "\<lambda>c. c\<lparr>socket := (socket c)\<lparr>sent := []\<rparr>\<rparr>"
  have e: "?f c' = ?f c" using assms by (simp add: same_frame_def)
  have "clientId (?f c') = clientId (?f c)" by (simp only: e)
  then show "clientId c' = clientId c" by simp
  have "lastSeen (?f c') = lastSeen (?f c)" by (simp only: e)
  then show "lastSeen c' = lastSeen c" by simp
  have "readyState (socket (?f c')) = readyState (socket (?f c))" by (simp only: e)
  then show "readyState (socket c') = readyState (socket c)" by simp
  have "sendThrows (socket (?f c')) = sendThrows (socket (?f c))" by (simp only: e)
  then show "sendThrows (socket c') = sendThrows (socket c)" by simp
  have "terminated (socket (?f c')) = terminated (socket (?f c))" by (simp only: e)
  then show "terminated (socket c') = terminated (socket c)" by simp
qed

lemma same_objs_update:
  assumes "list_all2 same_frame xs ys" and "same_frame (ys ! i) c"
  shows "list_all2 same_frame xs (ys[i := c])"
proof (cases "i < length ys")
  case True
  have "list_all2 same_frame (xs[i := xs ! i]) (ys[i := c])"
  proof (rule list_all2_update_cong [OF assms(1)])
    have "same_frame (xs ! i) (ys ! i)"
      using assms(1) True by (simp add: list_all2_conv_all_nth)
    then show "same_frame (xs ! i) c" using assms(2) by (rule same_frame_trans)
  qed
  then show ?thesis by simp
next
  case False
  then have "ys[i := c] = ys" by (simp add: list_update_beyond)
  then show ?thesis using assms(1) by simp
qed

lemma same_objs_refl [simp]: "list_all2 same_frame xs xs"
  by (simp add: list_all2_refl)

lemma same_objs_trans:
  "list_all2 same_frame xs ys \<Longrightarrow> list_all2 same_frame ys zs \<Longrightarrow> list_all2 same_frame xs zs"
  by (rule list_all2_trans [OF same_frame_trans])

subsection \<open>broadcast\<close>

lemma broadcast_body_clients [simp]: "clients (broadcast_body m r s) = clients s"
  by (simp add: broadcast_body_def Let_def send_def)

lemma broadcast_body_same: "list_all2 same_frame (objs s) (objs (broadcast_body m r s))"
  by (auto simp: broadcast_body_def Let_def send_def intro!: same_objs_update)

lemma broadcast_body_nth:
  assumes "i < length (objs s)"
  shows "objs (broadcast_body m r s) ! i =
     (if i = r \<and> readyState (socket (objs s ! i)) = OPEN \<and> \<not> sendThrows (socket (objs s ! i))
      then (objs s ! i)\<lparr>socket := (socket (objs s ! i))\<lparr>sent := sent (socket (objs s ! i)) @ [m]\<rparr>\<rparr>
      else objs s ! i)"
  using assms by (cases "i = r") (simp_all add: broadcast_body_def Let_def send_def)

lemma broadcast_loop_clients [simp]: "clients (broadcast_loop m rs s) = clients s"
  by (induction rs arbitrary: s) simp_all

lemma broadcast_loop_same: "list_all2 same_frame (objs s) (objs (broadcast_loop m rs s))"
proof (induction rs arbitrary: s)
  case Nil
  show ?case by simp
next
  case (Cons r rs)
  have "list_all2 same_frame (objs s) (objs (broadcast_body m r s))"
    by (rule broadcast_body_same)
  moreover have "list_all2 same_frame (objs (broadcast_body m r s))
      (objs (broadcast_loop m rs (broadcast_body m r s)))"
    by (rule Cons.IH)
  ultimately show ?case
    by simp (rule same_objs_trans)
qed

lemma broadcast_loop_nth:
  assumes "distinct rs" and "i < length (objs s)"
  shows "objs (broadcast_loop m rs s) ! i =
     (if i \<in> set rs \<and> readyState (socket (objs s ! i)) = OPEN \<and> \<not> sendThrows (socket (objs s ! i))
      then (objs s ! i)\<lparr>socket := (socket (objs s ! i))\<lparr>sent := sent (socket (objs s ! i)) @ [m]\<rparr>\<rparr>
      else objs s ! i)"
  using assms
proof (induction rs arbitrary: s)
  case Nil
  show ?case by simp
next
  case (Cons r rs)
  let ?s1 = "broadcast_body m r s"
  have len: "length (objs ?s1) = length (objs s)"
    using broadcast_body_same [of s m r] by (simp add: list_all2_lengthD)
  have d: "distinct rs" and nr: "r \<notin> set rs" using Cons.prems(1) by simp_all
  have i1: "i < length (objs ?s1)" using Cons.prems(2) len by simp
  have step: "objs (broadcast_loop m rs ?s1) ! i =
     (if i \<in> set rs \<and> readyState (socket (objs ?s1 ! i)) = OPEN \<and> \<not> sendThrows (socket (objs ?s1 ! i))
      then (objs ?s1 ! i)\<lparr>socket := (socket (objs ?s1 ! i))\<lparr>sent := sent (socket (objs ?s1 ! i)) @ [m]\<rparr>\<rparr>
      else objs ?s1 ! i)"
    by (rule Cons.IH [OF d i1])
  show ?case
  proof (cases "i = r")
    case True
    then have "i \<notin> set rs" using nr by simp
    then show ?thesis
      using step True broadcast_body_nth [OF Cons.prems(2), of m r] by simp
  next
    case False
    then have "objs ?s1 ! i = objs s ! i"
      using broadcast_body_nth [OF Cons.prems(2), of m r] by simp
    then show ?thesis using step False by simp
  qed
qed

subsection \<open>The registry invariant\<close>

lemma registry_ok_iff:
  "registry_ok s \<longleftrightarrow>
     distinct (map fst (clients s)) \<and>
     (\<forall>k r. map_of (clients s) k = Some r \<longrightarrow> r < length (objs s) \<and> clientId (objs s ! r) = k)"
proof (cases "distinct (map fst (clients s))")
  case True
  then show ?thesis
    by (auto simp: registry_ok_def list_all_iff)
next
  case False
  then show ?thesis by (simp add: registry_ok_def)
qed

lemma registry_ok_entry:
  assumes "registry_ok s" and "(k, r) \<in> set (clients s)"
  shows "r < length (objs s)" and "clientId (objs s ! r) = k" and "map_of (clients s) k = Some r"
  using assms by (auto simp: registry_ok_def list_all_iff)

lemma registry_ok_refs_distinct:
  assumes "registry_ok s"
  shows "distinct (map snd (clients s))"
proof -
  have d: "distinct (clients s)"
    using assms by (simp add: registry_ok_def distinct_map)
  have "inj_on snd (set (clients s))"
  proof (rule inj_onI)
    fix x y
    assume x: "x \<in> set (clients s)" and y: "y \<in> set (clients s)" and e: "snd x = snd y"
    have "clientId (objs s ! snd x) = fst x"
      using registry_ok_entry(2) [OF assms, of "fst x" "snd x"] x by simp
    moreover have "clientId (objs s ! snd y) = fst y"
      using registry_ok_entry(2) [OF assms, of "fst y" "snd y"] y by simp
    ultimately have "fst x = fst y" using e by simp
    then show "x = y" using e by (simp add: prod_eq_iff)
  qed
  then show ?thesis using d by (simp add: distinct_map)
qed

lemma registry_ok_same:
  assumes "registry_ok s" and "clients s' = clients s"
    and "list_all2 same_frame (objs s) (objs s')"
  shows "registry_ok s'"
proof -
  have len: "length (objs s') = length (objs s)"
    using assms(3) by (simp add: list_all2_lengthD)
  have ids: "clientId (objs s' ! r) = clientId (objs s ! r)" if "r < length (objs s)" for r
    using assms(3) that by (simp add: list_all2_conv_all_nth same_frame_fields(1))
  show ?thesis
    using assms(1) unfolding registry_ok_iff assms(2) len
    by (auto simp: ids)
qed

lemma registry_ok_delete:
  assumes "registry_ok s"
  shows "registry_ok (s\<lparr>clients := AList.delete k (clients s)\<rparr>)"
  using assms unfolding registry_ok_iff
  by (auto simp: distinct_delete delete_conv' split: if_splits)

lemma same_objs_lastSeen:
  assumes "list_all2 same_frame xs ys"
  shows "map lastSeen ys = map lastSeen xs"
proof (rule nth_equalityI)
  show "length (map lastSeen ys) = length (map lastSeen xs)"
    using assms by (simp add: list_all2_lengthD)
next
  fix i
  assume "i < length (map lastSeen ys)"
  then show "map lastSeen ys ! i = map lastSeen xs ! i"
    using assms by (simp add: list_all2_conv_all_nth same_frame_fields(2))
qed

subsection \<open>broadcast, broadcastPeerList, handleDisconnect, sendToClient\<close>

lemma broadcast_clients [simp]: "clients (broadcast m s) = clients s"
  by (simp add: broadcast_def)

lemma broadcast_same: "list_all2 same_frame (objs s) (objs (broadcast m s))"
  by (simp add: broadcast_def broadcast_loop_same)

lemma broadcastPeerList_clients [simp]: "clients (broadcastPeerList s) = clients s"
  by (simp add: broadcastPeerList_def Let_def)

lemma broadcastPeerList_same: "list_all2 same_frame (objs s) (objs (broadcastPeerList s))"
  by (simp add: broadcastPeerList_def Let_def broadcast_same)

lemma broadcastPeerList_nth:
  assumes "registry_ok s" and "i < length (objs s)"
  shows "objs (broadcastPeerList s) ! i =
     (if i \<in> snd ` set (clients s) \<and> readyState (socket (objs s ! i)) = OPEN
         \<and> \<not> sendThrows (socket (objs s ! i))
      then (objs s ! i)\<lparr>socket := (socket (objs s ! i))
             \<lparr>sent := sent (socket (objs s ! i)) @ [Peers (map fst (clients s))]\<rparr>\<rparr>
      else objs s ! i)"
  using broadcast_loop_nth [OF registry_ok_refs_distinct [OF assms(1)] assms(2)]
  by (simp add: broadcastPeerList_def broadcast_def Let_def)

lemma registry_ok_broadcastPeerList:
  "registry_ok s \<Longrightarrow> registry_ok (broadcastPeerList s)"
  by (erule registry_ok_same) (simp_all add: broadcastPeerList_same)

lemma registry_ok_log [simp]: "registry_ok (log t l s) = registry_ok s"
  by (simp add: registry_ok_def)

lemma handleDisconnect_clients:
  "clients (handleDisconnect r s) = AList.delete (clientId (objs s ! r)) (clients s)"
  by (simp add: handleDisconnect_def Let_def)

lemma handleDisconnect_same: "list_all2 same_frame (objs s) (objs (handleDisconnect r s))"
  using broadcastPeerList_same
    [of "(log (Disconnected (clientId (objs s ! r))) Info s)
          \<lparr>clients := AList.delete (clientId (objs s ! r)) (clients s)\<rparr>"]
  by (simp add: handleDisconnect_def Let_def)

lemma registry_ok_handleDisconnect:
  assumes "registry_ok s"
  shows "registry_ok (handleDisconnect r s)"
proof -
  have "registry_ok ((log (Disconnected (clientId (objs s ! r))) Info s)
          \<lparr>clients := AList.delete (clientId (objs s ! r)) (clients s)\<rparr>)"
    using registry_ok_delete [of "log (Disconnected (clientId (objs s ! r))) Info s"] assms
    by simp
  then show ?thesis
    by (simp add: handleDisconnect_def Let_def registry_ok_broadcastPeerList)
qed

lemma sendToClient_ok:
  assumes "\<not> sendThrows (socket (objs s ! r))"
  shows "sendToClient r m s =
     (if readyState (socket (objs s ! r)) = OPEN
      then s\<lparr>objs := (objs s)[r := (objs s ! r)\<lparr>socket := (socket (objs s ! r))
                \<lparr>sent := sent (socket (objs s ! r)) @ [m]\<rparr>\<rparr>]\<rparr>
      else s)"
  using assms by (simp add: sendToClient_def Let_def send_def)

lemma sendToClient_throws:
  assumes "readyState (socket (objs s ! r)) = OPEN" and "sendThrows (socket (objs s ! r))"
  shows "sendToClient r m s = handleDisconnect r (log (SendError (clientId (objs s ! r))) Err s)"
  using assms by (simp add: sendToClient_def Let_def send_def)

lemma sendToClient_same: "list_all2 same_frame (objs s) (objs (sendToClient r m s))"
proof (cases "readyState (socket (objs s ! r)) = OPEN \<and> sendThrows (socket (objs s ! r))")
  case True
  then show ?thesis
    using handleDisconnect_same [of "log (SendError (clientId (objs s ! r))) Err s" r]
    by (simp add: sendToClient_throws)
next
  case False
  then show ?thesis
    by (auto simp: sendToClient_def Let_def send_def intro!: same_objs_update)
qed

lemma registry_ok_sendToClient:
  assumes "registry_ok s"
  shows "registry_ok (sendToClient r m s)"
proof (cases "readyState (socket (objs s ! r)) = OPEN \<and> sendThrows (socket (objs s ! r))")
  case True
  then show ?thesis
    using registry_ok_handleDisconnect [of "log (SendError (clientId (objs s ! r))) Err s" r] assms
    by (simp add: sendToClient_throws)
next
  case False
  have "clients (sendToClient r m s) = clients s"
    using False by (auto simp: sendToClient_def Let_def send_def)
  then show ?thesis
    by (rule registry_ok_same [OF assms _ sendToClient_same])
qed

subsection \<open>Registration\<close>

lemma nth_update_field:
  assumes "f c = f (xs ! i)"
  shows "f (xs[i := c] ! j) = f (xs ! j)"
proof (cases "i < length xs")
  case True
  then show ?thesis using assms by (cases "j = i") simp_all
next
  case False
  then show ?thesis by (simp add: list_update_beyond)
qed

lemma map_update_field:
  assumes "f c = f (xs ! i)"
  shows "map f (xs[i := c]) = map f xs"
  by (rule nth_equalityI) (simp_all add: nth_update_field [OF assms])

lemma handleRegister_missing:
  assumes "falsy (peerId m)"
  shows "handleRegister m r s = log (MissingPeerId (clientId (objs s ! r))) Warn s"
  using assms by (simp add: handleRegister_def falsy_def split: option.splits)

lemma handleRegister_conflict:
  assumes "peerId m = Some p" and "p \<noteq> []" and "map_of (clients s) p = Some r'"
    and "clientId (objs s ! r') \<noteq> clientId (objs s ! r)"
  shows "handleRegister m r s =
     sendToClient r (ErrorMsg ''Peer ID already in use'')
       (log (IdInUse (clientId (objs s ! r)) p) Warn s)"
  using assms by (simp add: handleRegister_def falsy_def)

lemma handleRegister_success:
  assumes "peerId m = Some p" and "p \<noteq> []"
    and "\<And>r'. map_of (clients s) p = Some r' \<Longrightarrow> clientId (objs s ! r') = clientId (objs s ! r)"
  shows "handleRegister m r s =
     broadcastPeerList (sendToClient r (Registered p) (log (RegisteredAs p) Info (reassigned p r s)))"
proof -
  have "\<not> (case map_of (clients s) p of None \<Rightarrow> False
           | Some r' \<Rightarrow> clientId (objs s ! r') \<noteq> clientId (objs s ! r))"
    using assms(3) by (simp split: option.splits)
  then show ?thesis
    using assms(1,2) by (simp add: handleRegister_def falsy_def Let_def reassigned_def)
qed

lemma registry_ok_reassigned:
  assumes "registry_ok s" and "r < length (objs s)"
  shows "registry_ok (reassigned p r s)"
proof -
  let ?old = "clientId (objs s ! r)"
  let ?objs = "(objs s)[r := (objs s ! r)\<lparr>clientId := p\<rparr>]"
  have d: "distinct (map fst (clients s))"
    and e: "\<And>k r'. map_of (clients s) k = Some r' \<Longrightarrow> r' < length (objs s) \<and> clientId (objs s ! r') = k"
    using assms(1) unfolding registry_ok_iff by auto
  have "distinct (map fst (AList.update p r (AList.delete ?old (clients s))))"
    using d by (simp add: distinct_update distinct_delete)
  moreover have "r' < length ?objs \<and> clientId (?objs ! r') = k"
    if m: "map_of (AList.update p r (AList.delete ?old (clients s))) k = Some r'" for k r'
  proof (cases "k = p")
    case True
    then have "r' = r" using m by (simp add: update_conv')
    then show ?thesis using True assms(2) by simp
  next
    case False
    then have k: "k \<noteq> ?old" and m': "map_of (clients s) k = Some r'"
      using m by (auto simp: update_conv' delete_conv' split: if_splits)
    have "r' \<noteq> r" using e [OF m'] k by auto
    then show ?thesis using e [OF m'] by simp
  qed
  ultimately show ?thesis
    unfolding registry_ok_iff by (simp add: reassigned_def)
qed

lemma reassigned_lastSeen: "map lastSeen (objs (reassigned p r s)) = map lastSeen (objs s)"
  by (simp add: reassigned_def map_update_field)

lemma registry_ok_handleRegister:
  assumes "registry_ok s" and "r < length (objs s)"
  shows "registry_ok (handleRegister m r s)"
proof (cases "falsy (peerId m)")
  case True
  then show ?thesis using assms(1) by (simp add: handleRegister_missing)
next
  case False
  then obtain p where p: "peerId m = Some p" "p \<noteq> []"
    by (auto simp: falsy_def split: option.splits)
  show ?thesis
  proof (cases "\<exists>r'. map_of (clients s) p = Some r' \<and> clientId (objs s ! r') \<noteq> clientId (objs s ! r)")
    case True
    then obtain r' where "map_of (clients s) p = Some r'"
      "clientId (objs s ! r') \<noteq> clientId (objs s ! r)" by blast
    then show ?thesis
      using assms(1) by (simp add: handleRegister_conflict [OF p] registry_ok_sendToClient)
  next
    case False
    then have "handleRegister m r s =
      broadcastPeerList (sendToClient r (Registered p) (log (RegisteredAs p) Info (reassigned p r s)))"
      using p by (intro handleRegister_success) auto
    then show ?thesis
      using registry_ok_reassigned [OF assms, of p]
      by (simp add: registry_ok_broadcastPeerList registry_ok_sendToClient)
  qed
qed

lemma handleRegister_lastSeen:
  "map lastSeen (objs (handleRegister m r s)) = map lastSeen (objs s)"
proof (cases "falsy (peerId m)")
  case True
  then show ?thesis by (simp add: handleRegister_missing)
next
  case False
  then obtain p where p: "peerId m = Some p" "p \<noteq> []"
    by (auto simp: falsy_def split: option.splits)
  show ?thesis
  proof (cases "\<exists>r'. map_of (clients s) p = Some r' \<and> clientId (objs s ! r') \<noteq> clientId (objs s ! r)")
    case True
    then obtain r' where "map_of (clients s) p = Some r'"
      "clientId (objs s ! r') \<noteq> clientId (objs s ! r)" by blast
    then show ?thesis
      using same_objs_lastSeen [OF sendToClient_same]
      by (simp add: handleRegister_conflict [OF p])
  next
    case False
    then have "handleRegister m r s =
      broadcastPeerList (sendToClient r (Registered p) (log (RegisteredAs p) Info (reassigned p r s)))"
      using p by (intro handleRegister_success) auto
    then show ?thesis
      using same_objs_lastSeen [OF broadcastPeerList_same] same_objs_lastSeen [OF sendToClient_same]
      by (simp add: reassigned_lastSeen)
  qed
qed

subsection \<open>Relay, peer list, dispatch\<close>

lemma relayMessage_cases:
  "relayMessage m s =
     (if falsy (target m) then log NoTarget Warn s
      else case map_of (clients s) (the (target m)) of
             None \<Rightarrow> log (UnknownTarget (the (target m))) Warn s
           | Some r \<Rightarrow> sendToClient r (Relayed m)
                        (log (Relaying (type m) (source m) (the (target m))) Info s))"
  by (simp add: relayMessage_def falsy_def split: option.splits)

lemma registry_ok_relayMessage: "registry_ok s \<Longrightarrow> registry_ok (relayMessage m s)"
  by (simp add: relayMessage_cases registry_ok_sendToClient split: option.splits)

lemma relayMessage_same: "list_all2 same_frame (objs s) (objs (relayMessage m s))"
  using sendToClient_same [of "log t l s" for t l]
  by (simp add: relayMessage_cases split: option.splits)

lemma registry_ok_sendPeerList: "registry_ok s \<Longrightarrow> registry_ok (sendPeerList r s)"
  by (simp add: sendPeerList_def Let_def registry_ok_sendToClient)

lemma sendPeerList_same: "list_all2 same_frame (objs s) (objs (sendPeerList r s))"
  by (simp add: sendPeerList_def Let_def sendToClient_same)

lemma registry_ok_dispatch:
  "registry_ok s \<Longrightarrow> r < length (objs s) \<Longrightarrow> registry_ok (dispatch m r s)"
  by (simp add: dispatch_def registry_ok_handleRegister registry_ok_relayMessage
      registry_ok_sendPeerList)

lemma dispatch_lastSeen: "map lastSeen (objs (dispatch m r s)) = map lastSeen (objs s)"
  by (simp add: dispatch_def handleRegister_lastSeen same_objs_lastSeen [OF relayMessage_same]
      same_objs_lastSeen [OF sendPeerList_same])

lemma registry_ok_touch: "registry_ok s \<Longrightarrow> registry_ok (touch r now s)"
  unfolding registry_ok_iff by (simp add: touch_def nth_update_field)

lemma touch_length [simp]: "length (objs (touch r now s)) = length (objs s)"
  by (simp add: touch_def)

lemma touch_clients [simp]: "clients (touch r now s) = clients s"
  by (simp add: touch_def)

lemma registry_ok_handleMessage:
  "registry_ok s \<Longrightarrow> r < length (objs s) \<Longrightarrow> registry_ok (handleMessage f r now s)"
  by (cases f) (simp_all add: handleMessage_def Let_def registry_ok_dispatch registry_ok_touch)

subsection \<open>Connection, sweep, transport\<close>

lemma registry_ok_ids:
  assumes "registry_ok s" and "clients s' = clients s"
    and "map clientId (objs s') = map clientId (objs s)"
  shows "registry_ok s'"
proof -
  have len: "length (objs s') = length (objs s)"
    using assms(3) by (rule map_eq_imp_length_eq)
  have ids: "clientId (objs s' ! r) = clientId (objs s ! r)" if "r < length (objs s)" for r
  proof -
    have "map clientId (objs s') ! r = map clientId (objs s) ! r" by (simp only: assms(3))
    then show ?thesis using that len by simp
  qed
  show ?thesis
    using assms(1) unfolding registry_ok_iff assms(2) len
    by (auto simp: ids)
qed

lemma registry_ok_accept:
  assumes "registry_ok s"
  shows "registry_ok (s\<lparr>objs := objs s @ [c\<lparr>clientId := k\<rparr>],
                         clients := AList.update k (length (objs s)) (clients s)\<rparr>)"
proof -
  have d: "distinct (map fst (clients s))"
    and e: "\<And>k r'. map_of (clients s) k = Some r' \<Longrightarrow> r' < length (objs s) \<and> clientId (objs s ! r') = k"
    using assms unfolding registry_ok_iff by auto
  have "r' < length (objs s @ [c\<lparr>clientId := k\<rparr>])
      \<and> clientId ((objs s @ [c\<lparr>clientId := k\<rparr>]) ! r') = k'"
    if m: "map_of (AList.update k (length (objs s)) (clients s)) k' = Some r'" for k' r'
  proof (cases "k' = k")
    case True
    then have "r' = length (objs s)" using m by (simp add: update_conv')
    then show ?thesis using True by simp
  next
    case False
    then have "map_of (clients s) k' = Some r'" using m by (simp add: update_conv')
    from e [OF this] show ?thesis by (simp add: nth_append)
  qed
  then show ?thesis
    unfolding registry_ok_iff using d by (simp add: distinct_update)
qed

lemma registry_ok_connection:
  assumes "registry_ok s"
  shows "registry_ok (connection sk tempId now s)"
proof -
  have "registry_ok (log (NewConnection tempId) Info s)" using assms by simp
  from registry_ok_accept [OF this, where k = tempId
      and c = "\<lparr>clientId = tempId, socket = sk, lastSeen = now\<rparr>"]
  show ?thesis
    by (simp add: connection_def Let_def registry_ok_sendToClient)
qed

lemma sweep_body_clients:
  "clients (sweep_body now k r s) =
     (if now - lastSeen (objs s ! r) > MAX_IDLE_TIME then AList.delete k (clients s) else clients s)"
  by (simp add: sweep_body_def Let_def)

lemma sweep_body_nth:
  "objs (sweep_body now k r s) ! i =
     (if i = r \<and> r < length (objs s) \<and> now - lastSeen (objs s ! r) > MAX_IDLE_TIME
      then (objs s ! r)\<lparr>socket := terminate (socket (objs s ! r))\<rparr> else objs s ! i)"
proof (cases "r < length (objs s)")
  case True
  then show ?thesis
    by (cases "i = r") (simp_all add: sweep_body_def Let_def)
next
  case False
  then show ?thesis
    by (simp add: sweep_body_def Let_def list_update_beyond)
qed

lemma sweep_body_length [simp]: "length (objs (sweep_body now k r s)) = length (objs s)"
  by (simp add: sweep_body_def Let_def)

lemma sweep_body_lastSeen [simp]:
  "lastSeen (objs (sweep_body now k r s) ! i) = lastSeen (objs s ! i)"
  by (simp add: sweep_body_nth)

lemma sweep_body_clientId [simp]:
  "clientId (objs (sweep_body now k r s) ! i) = clientId (objs s ! i)"
  by (simp add: sweep_body_nth)

lemma sweep_body_sent [simp]:
  "sent (socket (objs (sweep_body now k r s) ! i)) = sent (socket (objs s ! i))"
  by (simp add: sweep_body_nth terminate_def)

lemma sweep_body_readyState [simp]:
  "readyState (socket (objs (sweep_body now k r s) ! i)) = readyState (socket (objs s ! i))"
  by (simp add: sweep_body_nth terminate_def)

lemma sweep_body_sendThrows [simp]:
  "sendThrows (socket (objs (sweep_body now k r s) ! i)) = sendThrows (socket (objs s ! i))"
  by (simp add: sweep_body_nth terminate_def)

lemma registry_ok_sweep_body:
  assumes "registry_ok s"
  shows "registry_ok (sweep_body now k r s)"
proof -
  let ?s1 = "s\<lparr>clients := clients (sweep_body now k r s)\<rparr>"
  have "registry_ok ?s1"
    using registry_ok_delete [OF assms, of k] assms by (simp add: sweep_body_clients)
  moreover have "clients (sweep_body now k r s) = clients ?s1" by simp
  moreover have "map clientId (objs (sweep_body now k r s)) = map clientId (objs ?s1)"
    by (rule nth_equalityI) simp_all
  ultimately show ?thesis by (rule registry_ok_ids)
qed

lemma sweep_length [simp]: "length (objs (sweep now es s)) = length (objs s)"
  by (induction now es s rule: sweep.induct) simp_all

lemma sweep_lastSeen [simp]: "lastSeen (objs (sweep now es s) ! i) = lastSeen (objs s ! i)"
  by (induction now es s rule: sweep.induct) simp_all

lemma sweep_clientId [simp]: "clientId (objs (sweep now es s) ! i) = clientId (objs s ! i)"
  by (induction now es s rule: sweep.induct) simp_all

lemma sweep_sent [simp]:
  "sent (socket (objs (sweep now es s) ! i)) = sent (socket (objs s ! i))"
  by (induction now es s rule: sweep.induct) simp_all

lemma sweep_readyState [simp]:
  "readyState (socket (objs (sweep now es s) ! i)) = readyState (socket (objs s ! i))"
  by (induction now es s rule: sweep.induct) simp_all

lemma sweep_sendThrows [simp]:
  "sendThrows (socket (objs (sweep now es s) ! i)) = sendThrows (socket (objs s ! i))"
  by (induction now es s rule: sweep.induct) simp_all

lemma registry_ok_sweep: "registry_ok s \<Longrightarrow> registry_ok (sweep now es s)"
  by (induction now es s rule: sweep.induct) (simp_all add: registry_ok_sweep_body)

lemma sweep_clients:
  "clients (sweep now es s) =
     filter (\<lambda>e. fst e \<notin> fst ` {x \<in> set es. now - lastSeen (objs s ! snd x) > MAX_IDLE_TIME})
       (clients s)"
proof (induction now es s rule: sweep.induct)
  case (1 now s)
  show ?case by simp
next
  case (2 now k r es s)
  let ?I = "\<lambda>es. fst ` {x \<in> set es. now - lastSeen (objs s ! snd x) > MAX_IDLE_TIME}"
  have ih: "clients (sweep now es (sweep_body now k r s)) =
      filter (\<lambda>e. fst e \<notin> ?I es) (clients (sweep_body now k r s))"
    using "2.IH" by simp
  show ?case
  proof (cases "now - lastSeen (objs s ! r) > MAX_IDLE_TIME")
    case True
    then have "{x \<in> set ((k, r) # es). now - lastSeen (objs s ! snd x) > MAX_IDLE_TIME} =
        insert (k, r) {x \<in> set es. now - lastSeen (objs s ! snd x) > MAX_IDLE_TIME}"
      by auto
    then have "?I ((k, r) # es) = insert k (?I es)" by (simp only: image_insert fst_conv)
    then show ?thesis
      using True ih
      by (simp add: sweep_body_clients AList.delete_eq case_prod_unfold conj_commute)
         (rule filter_cong, auto)
  next
    case False
    then have "?I ((k, r) # es) = ?I es" by auto
    then show ?thesis
      using False ih by (simp add: sweep_body_clients)
  qed
qed

lemma sweep_body_terminated:
  assumes "i < length (objs s)"
  shows "terminated (socket (objs (sweep_body now k r s) ! i)) \<longleftrightarrow>
     terminated (socket (objs s ! i)) \<or> (i = r \<and> now - lastSeen (objs s ! i) > MAX_IDLE_TIME)"
  using assms by (cases "i = r") (simp_all add: sweep_body_nth terminate_def)

lemma sweep_terminated:
  assumes "i < length (objs s)"
  shows "terminated (socket (objs (sweep now es s) ! i)) \<longleftrightarrow>
     terminated (socket (objs s ! i))
     \<or> (i \<in> snd ` set es \<and> now - lastSeen (objs s ! i) > MAX_IDLE_TIME)"
  using assms
proof (induction now es s rule: sweep.induct)
  case (1 now s)
  show ?case by simp
next
  case (2 now k r es s)
  have i: "i < length (objs (sweep_body now k r s))" using "2.prems" by simp
  show ?case
    using "2.IH" [OF i] sweep_body_terminated [OF "2.prems", of now k r]
    by (cases "i = r") auto
qed

lemma heartbeatCheck_clients:
  assumes "registry_ok s"
  shows "clients (heartbeatCheck now s) =
     filter (\<lambda>e. \<not> now - lastSeen (objs s ! snd e) > MAX_IDLE_TIME) (clients s)"
proof -
  let ?I = "fst ` {x \<in> set (clients s). now - lastSeen (objs s ! snd x) > MAX_IDLE_TIME}"
  have "(fst e \<notin> ?I) = (\<not> now - lastSeen (objs s ! snd e) > MAX_IDLE_TIME)"
    if e: "e \<in> set (clients s)" for e
  proof
    assume "fst e \<notin> ?I"
    then show "\<not> now - lastSeen (objs s ! snd e) > MAX_IDLE_TIME"
      using e by (auto simp: image_iff)
  next
    assume n: "\<not> now - lastSeen (objs s ! snd e) > MAX_IDLE_TIME"
    show "fst e \<notin> ?I"
    proof
      assume "fst e \<in> ?I"
      then obtain x where x: "x \<in> set (clients s)" "fst x = fst e"
        "now - lastSeen (objs s ! snd x) > MAX_IDLE_TIME" by auto
      have "map_of (clients s) (fst x) = Some (snd x)"
        using registry_ok_entry(3) [OF assms, of "fst x" "snd x"] x(1) by simp
      moreover have "map_of (clients s) (fst e) = Some (snd e)"
        using registry_ok_entry(3) [OF assms, of "fst e" "snd e"] e by simp
      ultimately have "snd x = snd e" using x(2) by simp
      then show False using x(3) n by simp
    qed
  qed
  then have "filter (\<lambda>e. fst e \<notin> ?I) (clients s) =
      filter (\<lambda>e. \<not> now - lastSeen (objs s ! snd e) > MAX_IDLE_TIME) (clients s)"
    by (intro filter_cong) simp_all
  then show ?thesis
    by (simp add: heartbeatCheck_def sweep_clients)
qed

lemma registry_ok_heartbeatCheck: "registry_ok s \<Longrightarrow> registry_ok (heartbeatCheck now s)"
  by (simp add: heartbeatCheck_def registry_ok_sweep registry_ok_broadcastPeerList)

lemma registry_ok_transport: "registry_ok s \<Longrightarrow> registry_ok (transport r st th s)"
  by (erule registry_ok_ids) (simp_all add: transport_def map_update_field)

lemma registry_ok_step: "registry_ok s \<Longrightarrow> registry_ok (step s e)"
proof (cases e)
  case (Connection sk tempId now)
  assume "registry_ok s"
  then show ?thesis using Connection by (simp add: registry_ok_connection)
next
  case (Message r f now)
  assume "registry_ok s"
  then show ?thesis using Message by (simp add: registry_ok_handleMessage)
next
  case (Close r)
  assume "registry_ok s"
  then show ?thesis using Close by (simp add: registry_ok_handleDisconnect)
next
  case (Error r)
  assume "registry_ok s"
  then show ?thesis using Error by (simp add: registry_ok_handleDisconnect)
next
  case (Heartbeat now)
  assume "registry_ok s"
  then show ?thesis using Heartbeat by (simp add: registry_ok_heartbeatCheck)
next
  case (Transport r st th)
  assume "registry_ok s"
  then show ?thesis using Transport by (simp add: registry_ok_transport)
qed

lemma registry_ok_init: "registry_ok init"
  by (simp add: registry_ok_def init_def)

lemma registry_ok_foldl: "registry_ok s \<Longrightarrow> registry_ok (foldl step s evs)"
  by (induction evs arbitrary: s) (simp_all add: registry_ok_step)

lemma registry_ok_run: "registry_ok s \<Longrightarrow> registry_ok (run evs s)"
  by (simp add: run_def registry_ok_foldl)

lemmas run_simps = run_def init_def fresh_socket_def msg_def register_msg_def offer_msg_def
  connection_def handleMessage_def dispatch_def touch_def handleRegister_def relayMessage_def
  sendPeerList_def handleDisconnect_def sendToClient_def broadcastPeerList_def broadcast_def
  broadcast_body_def heartbeatCheck_def sweep_body_def transport_def terminate_def
  log_def send_def falsy_def MAX_IDLE_TIME_def Let_def registry_ok_def

section \<open>The claims\<close>

subsection \<open>Registration with an empty peerId\<close>

text \<open>
  C10. A register frame whose \<open>peerId\<close> is the empty string is handled exactly as one
  whose \<open>peerId\<close> is absent: the warning is logged and nothing else happens. Through
  \<open>handleMessage\<close> the result is the state with \<open>lastSeen\<close> updated and that one line
  logged: the registry is the same and no socket has written anything.
\<close>

theorem empty_peerId_as_absent:
  "handleRegister (m\<lparr>peerId := Some []\<rparr>) r s = handleRegister (m\<lparr>peerId := None\<rparr>) r s
   \<and> handleRegister (m\<lparr>peerId := Some []\<rparr>) r s = log (MissingPeerId (clientId (objs s ! r))) Warn s
   \<and> handleMessage (Parsed (m\<lparr>type := ''register'', peerId := Some []\<rparr>)) r now s =
       handleMessage (Parsed (m\<lparr>type := ''register'', peerId := None\<rparr>)) r now s
   \<and> handleMessage (Parsed (m\<lparr>type := ''register'', peerId := Some []\<rparr>)) r now s =
       log (MissingPeerId (clientId (objs s ! r))) Warn (touch r now s)
   \<and> clients (handleMessage (Parsed (m\<lparr>type := ''register'', peerId := Some []\<rparr>)) r now s) = clients s
   \<and> map socket (objs (handleMessage (Parsed (m\<lparr>type := ''register'', peerId := Some []\<rparr>)) r now s))
       = map socket (objs s)"
proof -
  have a: "handleRegister (m\<lparr>peerId := Some []\<rparr>) r s = log (MissingPeerId (clientId (objs s ! r))) Warn s" for m r s
    by (rule handleRegister_missing) (simp add: falsy_def)
  have b: "handleRegister (m\<lparr>peerId := None\<rparr>) r s = log (MissingPeerId (clientId (objs s ! r))) Warn s" for m r s
    by (rule handleRegister_missing) (simp add: falsy_def)
  have c: "clientId (objs (touch r now s) ! r) = clientId (objs s ! r)"
    by (simp add: touch_def nth_update_field)
  have d: "map socket (objs (touch r now s)) = map socket (objs s)"
    by (simp add: touch_def map_update_field)
  have e: "handleMessage (Parsed (m\<lparr>type := ''register'', peerId := Some []\<rparr>)) r now s =
       log (MissingPeerId (clientId (objs s ! r))) Warn (touch r now s)"
    using a [of "m\<lparr>type := ''register''\<rparr>" r "touch r now s"]
    by (simp add: handleMessage_def dispatch_def c)
  have f: "handleMessage (Parsed (m\<lparr>type := ''register'', peerId := None\<rparr>)) r now s =
       log (MissingPeerId (clientId (objs s ! r))) Warn (touch r now s)"
    using b [of "m\<lparr>type := ''register''\<rparr>" r "touch r now s"]
    by (simp add: handleMessage_def dispatch_def c)
  show ?thesis
    by (simp add: a b e f d)
qed

subsection \<open>lastSeen and undecodable frames\<close>

text \<open>
  C5, as amended. A frame on which \<open>JSON.parse\<close> succeeds has \<open>lastSeen\<close> set to
  the current time before the dispatch on its type, whatever the type, and \<open>lastSeen\<close>
  still holds that time when the handler is done; when the frame parses to \<open>null\<close>
  the dispatch raises, and the frame is logged as a parse error and dropped with
  \<open>lastSeen\<close> updated and nothing else changed. A frame on which \<open>JSON.parse\<close>
  raises is logged and dropped: client objects (with their sockets) and registry stay as
  they are, and so does \<open>lastSeen\<close>.
\<close>

theorem lastSeen_updated_when_decoded:
  "handleMessage (Parsed m) r now s = dispatch m r (touch r now s)
   \<and> handleMessage ParsedNull r now s = log (ParseError (clientId (objs s ! r))) Err (touch r now s)
   \<and> (r < length (objs s) \<longrightarrow>
        lastSeen (objs (touch r now s) ! r) = now
        \<and> lastSeen (objs (handleMessage (Parsed m) r now s) ! r) = now
        \<and> lastSeen (objs (handleMessage ParsedNull r now s) ! r) = now)
   \<and> clients (handleMessage ParsedNull r now s) = clients s
   \<and> map socket (objs (handleMessage ParsedNull r now s)) = map socket (objs s)
   \<and> map clientId (objs (handleMessage ParsedNull r now s)) = map clientId (objs s)
   \<and> handleMessage Malformed r now s = log (ParseError (clientId (objs s ! r))) Err s
   \<and> objs (handleMessage Malformed r now s) = objs s
   \<and> clients (handleMessage Malformed r now s) = clients s"
proof -
  have t: "lastSeen (objs (touch r now s) ! r) = now" if "r < length (objs s)"
    using that by (simp add: touch_def)
  have "lastSeen (objs (dispatch m r (touch r now s)) ! r) = now" if r: "r < length (objs s)"
  proof -
    have "map lastSeen (objs (dispatch m r (touch r now s))) ! r
        = map lastSeen (objs (touch r now s)) ! r"
      by (simp only: dispatch_lastSeen)
    moreover have "length (objs (dispatch m r (touch r now s))) = length (objs (touch r now s))"
      using dispatch_lastSeen [of m r "touch r now s"] by (rule map_eq_imp_length_eq)
    ultimately show ?thesis using r t by simp
  qed
  moreover have c: "clientId (objs (touch r now s) ! r) = clientId (objs s ! r)"
    by (simp add: touch_def nth_update_field)
  moreover have "map socket (objs (touch r now s)) = map socket (objs s)"
    and "map clientId (objs (touch r now s)) = map clientId (objs s)"
    by (simp_all add: touch_def map_update_field)
  ultimately show ?thesis
    using t by (simp add: handleMessage_def Let_def)
qed

text \<open>
  A heartbeat and a \<open>null\<close> frame at time 5, from the client that connected at time 0.
\<close>

theorem lastSeen_updated_when_decoded_witness:
  "lastSeen (objs (handleMessage (Parsed (msg ''heartbeat'')) 0 5 one_client) ! 0) = 5
   \<and> lastSeen (objs (handleMessage ParsedNull 0 5 one_client) ! 0) = 5"
proof -
  have "(0::nat) < length (objs one_client)"
    by (simp add: one_client_def run_simps)
  then show ?thesis
    using lastSeen_updated_when_decoded [of "msg ''heartbeat''" 0 5 one_client] by blast
qed

text \<open>
  C5 as stated fails: a frame on which \<open>JSON.parse\<close> raises, at time 5, does not set
  \<open>lastSeen\<close> to 5.
\<close>

theorem malformed_frame_keeps_lastSeen:
  "lastSeen (objs (handleMessage Malformed 0 5 one_client) ! 0) \<noteq> 5"
  by (simp add: one_client_def run_simps)

subsection \<open>The liveness sweep\<close>

lemma snd_in_image: "(k, r) \<in> set xs \<Longrightarrow> r \<in> snd ` set xs"
  by force

lemma same_objs_nth:
  assumes "list_all2 same_frame xs ys" and "i < length xs"
  shows "same_frame (xs ! i) (ys ! i)"
  using assms by (simp add: list_all2_conv_all_nth)

lemma heartbeatCheck_terminated:
  assumes "i < length (objs s)"
  shows "terminated (socket (objs (heartbeatCheck now s) ! i)) \<longleftrightarrow>
     terminated (socket (objs s ! i))
     \<or> (i \<in> snd ` set (clients s) \<and> now - lastSeen (objs s ! i) > MAX_IDLE_TIME)"
proof -
  let ?s1 = "sweep now (clients s) s"
  have "same_frame (objs ?s1 ! i) (objs (broadcastPeerList ?s1) ! i)"
    using assms by (intro same_objs_nth [OF broadcastPeerList_same]) simp
  then have "terminated (socket (objs (heartbeatCheck now s) ! i))
      = terminated (socket (objs ?s1 ! i))"
    by (simp add: heartbeatCheck_def same_frame_fields(5))
  then show ?thesis by (simp add: sweep_terminated [OF assms])
qed

text \<open>
  C6. In a state that satisfies the registry invariant, take any entry of the registry
  and run one sweep at time \<open>now\<close>. If the entry has been idle for more than 90000
  milliseconds (the 90 time-units of the specification), then after the sweep its id has no
  entry, its client object is no longer referred to by the registry, and \<open>terminate\<close>
  has been called on its socket. Otherwise the entry is still there, and the sweep has not
  called \<open>terminate\<close> on its socket.
\<close>

theorem sweep_evicts_exactly_the_idle:
  assumes "registry_ok s" and "(k, r) \<in> set (clients s)"
  shows "if now - lastSeen (objs s ! r) > 90000
         then map_of (clients (heartbeatCheck now s)) k = None
              \<and> r \<notin> snd ` set (clients (heartbeatCheck now s))
              \<and> terminated (socket (objs (heartbeatCheck now s) ! r))
         else map_of (clients (heartbeatCheck now s)) k = Some r
              \<and> terminated (socket (objs (heartbeatCheck now s) ! r))
                  = terminated (socket (objs s ! r))"
proof -
  let ?s' = "heartbeatCheck now s"
  have r: "r < length (objs s)" and m: "map_of (clients s) k = Some r"
    using registry_ok_entry [OF assms] by simp_all
  have c: "clients ?s' = filter (\<lambda>e. \<not> now - lastSeen (objs s ! snd e) > 90000) (clients s)"
    using heartbeatCheck_clients [OF assms(1), of now] by (simp add: MAX_IDLE_TIME_def)
  have ok': "registry_ok ?s'" using assms(1) by (rule registry_ok_heartbeatCheck)
  have t: "terminated (socket (objs ?s' ! r)) \<longleftrightarrow>
     terminated (socket (objs s ! r)) \<or> now - lastSeen (objs s ! r) > 90000"
    using heartbeatCheck_terminated [OF r, of now] snd_in_image [OF assms(2)]
    by (simp add: MAX_IDLE_TIME_def)
  show ?thesis
  proof (cases "now - lastSeen (objs s ! r) > 90000")
    case True
    have "r \<notin> snd ` set (clients ?s')" using True by (auto simp: c)
    moreover have "map_of (clients ?s') k = None"
    proof (rule ccontr)
      assume "map_of (clients ?s') k \<noteq> None"
      then obtain r' where "map_of (clients ?s') k = Some r'" by auto
      then have "(k, r') \<in> set (clients ?s')" by (rule map_of_SomeD)
      then have "(k, r') \<in> set (clients s)" and n: "\<not> now - lastSeen (objs s ! r') > 90000"
        by (simp_all add: c)
      then have "r' = r" using registry_ok_entry(3) [OF assms(1), of k r'] m by simp
      then show False using n True by simp
    qed
    ultimately show ?thesis using True t by simp
  next
    case False
    then have "(k, r) \<in> set (clients ?s')" using assms(2) by (simp add: c)
    then have "map_of (clients ?s') k = Some r" by (rule registry_ok_entry(3) [OF ok'])
    then show ?thesis using False t by simp
  qed
qed

text \<open>
  At time 100000 the client last seen at 0 is evicted, the one last seen at 50000 stays.
\<close>

theorem sweep_evicts_exactly_the_idle_witness:
  "map_of (clients (heartbeatCheck 100000 two_clients)) ''temp-a'' = None
   \<and> terminated (socket (objs (heartbeatCheck 100000 two_clients) ! 0))
   \<and> map_of (clients (heartbeatCheck 100000 two_clients)) ''temp-b'' = Some 1
   \<and> \<not> terminated (socket (objs (heartbeatCheck 100000 two_clients) ! 1))"
proof -
  have ok: "registry_ok two_clients"
    by (simp add: two_clients_def run_simps)
  have a: "(''temp-a'', 0) \<in> set (clients two_clients)"
    and b: "(''temp-b'', 1) \<in> set (clients two_clients)"
    by (simp_all add: two_clients_def run_simps)
  have la: "lastSeen (objs two_clients ! 0) = 0" and lb: "lastSeen (objs two_clients ! 1) = 50000"
    and tb: "\<not> terminated (socket (objs two_clients ! 1))"
    by (simp_all add: two_clients_def run_simps)
  show ?thesis
    using sweep_evicts_exactly_the_idle [OF ok a, of 100000]
      sweep_evicts_exactly_the_idle [OF ok b, of 100000] la lb tb
    by simp
qed

text \<open>
  C8. Whatever the sweep evicted, it ends with the broadcast of the peer list: every entry
  that is in the registry after the sweep, and whose socket is open and does not fail on
  \<open>send\<close>, has been sent exactly one more message, the list of the ids now registered;
  the sockets of the other entries are skipped by \<open>broadcast\<close>. In particular this
  holds when no entry was idle, in which case the registry is unchanged.
\<close>

theorem sweep_always_broadcasts:
  assumes "registry_ok s"
  shows "(\<forall>(k, r) \<in> set (clients (heartbeatCheck now s)).
            sent (socket (objs (heartbeatCheck now s) ! r)) =
              sent (socket (objs s ! r)) @
                (if readyState (socket (objs s ! r)) = OPEN \<and> \<not> sendThrows (socket (objs s ! r))
                 then [Peers (map fst (clients (heartbeatCheck now s)))] else []))
         \<and> ((\<forall>(k, r) \<in> set (clients s). \<not> now - lastSeen (objs s ! r) > 90000)
              \<longrightarrow> clients (heartbeatCheck now s) = clients s)"
proof -
  let ?s1 = "sweep now (clients s) s"
  have ok1: "registry_ok ?s1" using assms by (rule registry_ok_sweep)
  have h: "heartbeatCheck now s = broadcastPeerList ?s1" by (simp add: heartbeatCheck_def)
  have "sent (socket (objs (heartbeatCheck now s) ! r)) =
          sent (socket (objs s ! r)) @
            (if readyState (socket (objs s ! r)) = OPEN \<and> \<not> sendThrows (socket (objs s ! r))
             then [Peers (map fst (clients (heartbeatCheck now s)))] else [])"
    if "(k, r) \<in> set (clients (heartbeatCheck now s))" for k r
  proof -
    have e: "(k, r) \<in> set (clients ?s1)" using that by (simp add: h)
    then have r: "r < length (objs ?s1)" by (rule registry_ok_entry(1) [OF ok1])
    have "r \<in> snd ` set (clients ?s1)" using e by (rule snd_in_image)
    then show ?thesis
      using broadcastPeerList_nth [OF ok1 r] by (simp add: h)
  qed
  moreover have "clients (heartbeatCheck now s) = clients s"
    if "\<forall>(k, r) \<in> set (clients s). \<not> now - lastSeen (objs s ! r) > 90000"
  proof -
    have "filter (\<lambda>e. \<not> now - lastSeen (objs s ! snd e) > MAX_IDLE_TIME) (clients s) = clients s"
      using that by (intro filter_True) (auto simp: MAX_IDLE_TIME_def)
    then show ?thesis by (simp add: heartbeatCheck_clients [OF assms])
  qed
  ultimately show ?thesis by auto
qed

text \<open>At time 60000 nobody is idle, and both clients are sent the peer list.\<close>

theorem sweep_always_broadcasts_witness:
  "clients (heartbeatCheck 60000 two_clients) = clients two_clients
   \<and> sent (socket (objs (heartbeatCheck 60000 two_clients) ! 0)) =
       [Welcome ''temp-a'', Peers [''temp-a'', ''temp-b'']]
   \<and> sent (socket (objs (heartbeatCheck 60000 two_clients) ! 1)) =
       [Welcome ''temp-b'', Peers [''temp-a'', ''temp-b'']]"
proof -
  have ok: "registry_ok two_clients"
    by (simp add: two_clients_def run_simps)
  have c: "clients two_clients = [(''temp-a'', 0), (''temp-b'', 1)]"
    by (simp add: two_clients_def run_simps)
  have o: "objs two_clients =
     [\<lparr>clientId = ''temp-a'', socket = fresh_socket\<lparr>sent := [Welcome ''temp-a'']\<rparr>, lastSeen = 0\<rparr>,
      \<lparr>clientId = ''temp-b'', socket = fresh_socket\<lparr>sent := [Welcome ''temp-b'']\<rparr>, lastSeen = 50000\<rparr>]"
    by (simp add: two_clients_def run_simps)
  have n: "\<forall>(k, r) \<in> set (clients two_clients). \<not> 60000 - lastSeen (objs two_clients ! r) > 90000"
    by (simp add: c o)
  have e: "clients (heartbeatCheck 60000 two_clients) = clients two_clients"
    using sweep_always_broadcasts [OF ok, of 60000] n by blast
  show ?thesis
    using sweep_always_broadcasts [OF ok, of 60000] e
    by (simp add: c o fresh_socket_def)
qed

subsection \<open>Transport failure\<close>

lemma handleDisconnect_nth:
  assumes "registry_ok s" and "i < length (objs s)"
  shows "objs (handleDisconnect r s) ! i =
     (if i \<in> snd ` set (clients (handleDisconnect r s)) \<and> readyState (socket (objs s ! i)) = OPEN
         \<and> \<not> sendThrows (socket (objs s ! i))
      then (objs s ! i)\<lparr>socket := (socket (objs s ! i))
             \<lparr>sent := sent (socket (objs s ! i)) @ [Peers (map fst (clients (handleDisconnect r s)))]\<rparr>\<rparr>
      else objs s ! i)"
proof -
  let ?s2 = "(log (Disconnected (clientId (objs s ! r))) Info s)
          \<lparr>clients := AList.delete (clientId (objs s ! r)) (clients s)\<rparr>"
  have ok2: "registry_ok ?s2"
    using registry_ok_delete [of "log (Disconnected (clientId (objs s ! r))) Info s"] assms(1)
    by simp
  have i: "i < length (objs ?s2)" using assms(2) by simp
  have h: "handleDisconnect r s = broadcastPeerList ?s2"
    by (simp add: handleDisconnect_def Let_def)
  show ?thesis
    using broadcastPeerList_nth [OF ok2 i] by (simp add: h)
qed

lemma handleDisconnect_unregisters:
  assumes "registry_ok s"
  shows "r \<notin> snd ` set (clients (handleDisconnect r s))"
proof
  assume "r \<in> snd ` set (clients (handleDisconnect r s))"
  then obtain k where k: "(k, r) \<in> set (AList.delete (clientId (objs s ! r)) (clients s))"
    by (auto simp: handleDisconnect_clients)
  then have "(k, r) \<in> set (clients s)" and "k \<noteq> clientId (objs s ! r)"
    by (auto simp: AList.delete_eq)
  then show False using registry_ok_entry(2) [OF assms, of k r] by simp
qed

text \<open>
  C7. An exception raised by \<open>socket.send\<close> is a value of the model (\<open>Inl\<close>);
  \<open>sendToClient\<close> returns a server state in every case, so the exception ends in its
  \<open>catch\<close>. When the send to an open socket raises: the client object is referred to
  by no registry entry afterwards, the registry is the old one without the entry under the
  client's id, nothing was written to the failing socket, and the peer list was broadcast:
  every remaining entry with an open socket that does not fail has been sent exactly the
  list of the remaining ids.
\<close>

theorem send_failure_is_a_disconnect:
  assumes "registry_ok s" and "r < length (objs s)"
    and "readyState (socket (objs s ! r)) = OPEN"
    and "send m (socket (objs s ! r)) = Inl e"
  shows "r \<notin> snd ` set (clients (sendToClient r m s))
     \<and> clients (sendToClient r m s) = AList.delete (clientId (objs s ! r)) (clients s)
     \<and> objs (sendToClient r m s) ! r = objs s ! r
     \<and> (\<forall>(k, r') \<in> set (clients (sendToClient r m s)).
          sent (socket (objs (sendToClient r m s) ! r')) =
            sent (socket (objs s ! r')) @
              (if readyState (socket (objs s ! r')) = OPEN \<and> \<not> sendThrows (socket (objs s ! r'))
               then [Peers (map fst (clients (sendToClient r m s)))] else []))"
proof -
  let ?s0 = "log (SendError (clientId (objs s ! r))) Err s"
  have th: "sendThrows (socket (objs s ! r))"
    using assms(4) by (simp add: send_def split: if_splits)
  have h: "sendToClient r m s = handleDisconnect r ?s0"
    using assms(3) th by (rule sendToClient_throws)
  have ok0: "registry_ok ?s0" using assms(1) by simp
  have a: "r \<notin> snd ` set (clients (handleDisconnect r ?s0))"
    using ok0 by (rule handleDisconnect_unregisters)
  have b: "clients (handleDisconnect r ?s0) = AList.delete (clientId (objs s ! r)) (clients s)"
    by (simp add: handleDisconnect_clients)
  have c: "objs (handleDisconnect r ?s0) ! r = objs s ! r"
    using handleDisconnect_nth [OF ok0, of r r] assms(2) a by simp
  have d: "sent (socket (objs (handleDisconnect r ?s0) ! r')) =
            sent (socket (objs s ! r')) @
              (if readyState (socket (objs s ! r')) = OPEN \<and> \<not> sendThrows (socket (objs s ! r'))
               then [Peers (map fst (clients (handleDisconnect r ?s0)))] else [])"
    if "(k, r') \<in> set (clients (handleDisconnect r ?s0))" for k r'
  proof -
    have "(k, r') \<in> set (clients s)"
      using that by (auto simp: b AList.delete_eq)
    then have "r' < length (objs ?s0)" using registry_ok_entry(1) [OF assms(1)] by simp
    from handleDisconnect_nth [OF ok0 this, of r] snd_in_image [OF that]
    show ?thesis by simp
  qed
  show ?thesis
    unfolding h using a b c d by auto
qed

text \<open>The send to alice fails: the entry alice is removed and the other client is told.\<close>

theorem send_failure_is_a_disconnect_witness:
  "clients (sendToClient 0 (Welcome ''x'') (transport 0 OPEN True alice_and_guest)) = [(''temp-b'', 1)]
   \<and> sent (socket (objs (sendToClient 0 (Welcome ''x'') (transport 0 OPEN True alice_and_guest)) ! 1)) =
       [Welcome ''temp-b'', Peers [''temp-b'']]
   \<and> sent (socket (objs (sendToClient 0 (Welcome ''x'') (transport 0 OPEN True alice_and_guest)) ! 0)) =
       [Welcome ''temp-a'', Registered ''alice'', Peers [''alice'']]"
proof -
  define s where "s = transport 0 OPEN True alice_and_guest"
  have cl: "clients s = [(''alice'', 0), (''temp-b'', 1)]"
    and o0: "objs s ! 0 = \<lparr>clientId = ''alice'',
              socket = \<lparr>readyState = OPEN, sendThrows = True,
                        sent = [Welcome ''temp-a'', Registered ''alice'', Peers [''alice'']],
                        terminated = False\<rparr>, lastSeen = 10\<rparr>"
    and o1: "objs s ! Suc 0 = \<lparr>clientId = ''temp-b'',
              socket = \<lparr>readyState = OPEN, sendThrows = False,
                        sent = [Welcome ''temp-b''], terminated = False\<rparr>, lastSeen = 20\<rparr>"
    and len: "length (objs s) = 2"
    by (simp_all add: s_def alice_and_guest_def run_simps)
  have ok: "registry_ok s" by (simp add: registry_ok_def cl o0 o1 len)
  have r: "(0::nat) < length (objs s)" by (simp add: len)
  have op: "readyState (socket (objs s ! 0)) = OPEN" by (simp add: o0)
  have f: "send (Welcome ''x'') (socket (objs s ! 0)) = Inl SendFailure"
    by (simp add: o0 send_def)
  note T = send_failure_is_a_disconnect [OF ok r op f]
  have c: "clients (sendToClient 0 (Welcome ''x'') s) = [(''temp-b'', 1)]"
    using T by (simp add: cl o0)
  have "sent (socket (objs (sendToClient 0 (Welcome ''x'') s) ! 1)) =
       [Welcome ''temp-b'', Peers [''temp-b'']]"
    using T by (simp add: c o1)
  moreover have "sent (socket (objs (sendToClient 0 (Welcome ''x'') s) ! 0)) =
       [Welcome ''temp-a'', Registered ''alice'', Peers [''alice'']]"
    using T by (simp add: o0)
  ultimately show ?thesis using c by (simp add: s_def)
qed

subsection \<open>Registration: reassignment and conflict\<close>

lemma sendToClient_no_failure:
  assumes "readyState (socket (objs s ! r)) = OPEN \<longrightarrow> \<not> sendThrows (socket (objs s ! r))"
  shows "sendToClient r m s =
     s\<lparr>objs := (objs s)[r := (objs s ! r)\<lparr>socket := (socket (objs s ! r))
            \<lparr>sent := sent (socket (objs s ! r)) @
                 (if readyState (socket (objs s ! r)) = OPEN then [m] else [])\<rparr>\<rparr>]\<rparr>"
  using assms by (simp add: sendToClient_def Let_def send_def)

lemma reassigned_socket [simp]: "socket (objs (reassigned p r s) ! i) = socket (objs s ! i)"
  by (simp add: reassigned_def nth_update_field)





text \<open>
  C4, as amended. A client that holds its own id in the registry asks for a non-empty
  \<open>peerId\<close> that maps to another connection, and the reply to it is not a transport
  failure. Then the registry is unchanged, and so is every client object except that the
  requester's socket, when open, has been sent exactly the error message: nothing was
  broadcast.
\<close>

theorem conflict_is_refused:
  assumes "registry_ok s"
    and "map_of (clients s) (clientId (objs s ! r)) = Some r"
    and "peerId m = Some p" and "p \<noteq> []"
    and "map_of (clients s) p = Some r'" and "r' \<noteq> r"
    and "readyState (socket (objs s ! r)) = OPEN \<longrightarrow> \<not> sendThrows (socket (objs s ! r))"
  shows "clients (handleRegister m r s) = clients s
     \<and> objs (handleRegister m r s) =
         (objs s)[r := (objs s ! r)\<lparr>socket := (socket (objs s ! r))
            \<lparr>sent := sent (socket (objs s ! r)) @
                 (if readyState (socket (objs s ! r)) = OPEN
                  then [ErrorMsg ''Peer ID already in use''] else [])\<rparr>\<rparr>]"
proof -
  let ?s0 = "log (IdInUse (clientId (objs s ! r)) p) Warn s"
  have "(p, r') \<in> set (clients s)" using assms(5) by (rule map_of_SomeD)
  then have p: "clientId (objs s ! r') = p" by (rule registry_ok_entry(2) [OF assms(1)])
  have "clientId (objs s ! r) \<noteq> p" using assms(2,5,6) by auto
  then have "clientId (objs s ! r') \<noteq> clientId (objs s ! r)" using p by simp
  then have h: "handleRegister m r s = sendToClient r (ErrorMsg ''Peer ID already in use'') ?s0"
    by (rule handleRegister_conflict [OF assms(3,4,5)])
  have nf: "readyState (socket (objs ?s0 ! r)) = OPEN \<longrightarrow> \<not> sendThrows (socket (objs ?s0 ! r))"
    using assms(7) by simp
  show ?thesis
    unfolding h by (simp add: sendToClient_no_failure [OF nf])
qed

text \<open>The second client asks for alice, which the first one holds.\<close>

theorem conflict_is_refused_witness:
  "clients (handleRegister (register_msg ''alice'') 1 alice_and_guest) = clients alice_and_guest
   \<and> sent (socket (objs (handleRegister (register_msg ''alice'') 1 alice_and_guest) ! 1)) =
       [Welcome ''temp-b'', ErrorMsg ''Peer ID already in use'']
   \<and> objs (handleRegister (register_msg ''alice'') 1 alice_and_guest) ! 0 = objs alice_and_guest ! 0"
proof -
  have cl: "clients alice_and_guest = [(''alice'', 0), (''temp-b'', 1)]"
    and o: "objs alice_and_guest = [\<lparr>clientId = ''alice'',
              socket = \<lparr>readyState = OPEN, sendThrows = False,
                        sent = [Welcome ''temp-a'', Registered ''alice'', Peers [''alice'']],
                        terminated = False\<rparr>, lastSeen = 10\<rparr>,
             \<lparr>clientId = ''temp-b'',
              socket = \<lparr>readyState = OPEN, sendThrows = False,
                        sent = [Welcome ''temp-b''], terminated = False\<rparr>, lastSeen = 20\<rparr>]"
    by (simp_all add: alice_and_guest_def run_simps)
  have ok: "registry_ok alice_and_guest" by (simp add: registry_ok_def cl o)
  have a: "map_of (clients alice_and_guest) (clientId (objs alice_and_guest ! 1)) = Some 1"
    by (simp add: cl o)
  have b: "peerId (register_msg ''alice'') = Some ''alice''" by (simp add: register_msg_def msg_def)
  have c: "''alice'' \<noteq> []" by simp
  have d: "map_of (clients alice_and_guest) ''alice'' = Some 0" by (simp add: cl)
  have e: "(0::nat) \<noteq> 1" by simp
  have f: "readyState (socket (objs alice_and_guest ! 1)) = OPEN
      \<longrightarrow> \<not> sendThrows (socket (objs alice_and_guest ! 1))" by (simp add: o)
  show ?thesis
    using conflict_is_refused [OF ok a b c d e f] by (simp add: o)
qed

text \<open>
  C4 as stated fails when the error reply itself raises: the requester is sent no error,
  \<open>sendToClient\<close> disconnects it, its entry is removed and the peer list is broadcast.
\<close>

theorem failed_error_reply_changes_registry:
  "map_of (clients guest_unreachable) ''alice'' = Some 0
   \<and> map_of (clients guest_unreachable) (clientId (objs guest_unreachable ! 1)) = Some 1
   \<and> clients (handleRegister (register_msg ''alice'') 1 guest_unreachable) \<noteq> clients guest_unreachable
   \<and> ErrorMsg ''Peer ID already in use''
        \<notin> set (sent (socket (objs (handleRegister (register_msg ''alice'') 1 guest_unreachable) ! 1)))
   \<and> sent (socket (objs (handleRegister (register_msg ''alice'') 1 guest_unreachable) ! 0)) =
        sent (socket (objs guest_unreachable ! 0)) @ [Peers [''alice'']]"
  by (simp add: guest_unreachable_def run_simps)

subsection \<open>Relay\<close>

text \<open>
  C3, as amended. In a state that satisfies the registry invariant, a relay frame \<open>m\<close>
  is written, as it is, to the socket of client object \<open>i\<close> exactly when the target
  of \<open>m\<close> is present and non-empty, maps to \<open>i\<close> in the registry, and the socket of
  \<open>i\<close> is open and its \<open>send\<close> does not raise. No socket is sent anything but that
  frame or, after a failed send to the target, the peer list: no error reply exists. When
  the target is missing, empty or not in the registry, client objects and registry are
  unchanged.
\<close>

theorem relay_delivery:
  assumes "registry_ok s" and "i < length (objs s)"
  shows "(sent (socket (objs (relayMessage m s) ! i)) = sent (socket (objs s ! i)) @ [Relayed m]
          \<longleftrightarrow> (case target m of
                 None \<Rightarrow> False
               | Some t \<Rightarrow> t \<noteq> [] \<and> map_of (clients s) t = Some i
                    \<and> readyState (socket (objs s ! i)) = OPEN
                    \<and> \<not> sendThrows (socket (objs s ! i))))
     \<and> (sent (socket (objs (relayMessage m s) ! i)) = sent (socket (objs s ! i))
        \<or> sent (socket (objs (relayMessage m s) ! i)) = sent (socket (objs s ! i)) @ [Relayed m]
        \<or> sent (socket (objs (relayMessage m s) ! i)) =
             sent (socket (objs s ! i)) @ [Peers (map fst (clients (relayMessage m s)))])
     \<and> ((case target m of None \<Rightarrow> True | Some t \<Rightarrow> t = [] \<or> map_of (clients s) t = None)
        \<longrightarrow> objs (relayMessage m s) = objs s \<and> clients (relayMessage m s) = clients s)"
proof (cases "falsy (target m)")
  case True
  then have "relayMessage m s = log NoTarget Warn s" by (simp add: relayMessage_cases)
  then show ?thesis using True by (auto simp: falsy_def split: option.splits)
next
  case False
  then obtain t where t: "target m = Some t" "t \<noteq> []"
    by (auto simp: falsy_def split: option.splits)
  show ?thesis
  proof (cases "map_of (clients s) t")
    case None
    then have "relayMessage m s = log (UnknownTarget t) Warn s"
      using False t by (simp add: relayMessage_cases)
    then show ?thesis using t None by simp
  next
    case (Some r)
    let ?s0 = "log (Relaying (type m) (source m) t) Info s"
    have h: "relayMessage m s = sendToClient r (Relayed m) ?s0"
      using False t Some by (simp add: relayMessage_cases)
    have "(t, r) \<in> set (clients s)" using Some by (rule map_of_SomeD)
    then have r: "r < length (objs s)" by (rule registry_ok_entry(1) [OF assms(1)])
    show ?thesis
    proof (cases "readyState (socket (objs s ! r)) = OPEN \<and> sendThrows (socket (objs s ! r))")
      case True
      have ok0: "registry_ok ?s0" using assms(1) by simp
      have i0: "i < length (objs ?s0)" using assms(2) by simp
      have h': "relayMessage m s = handleDisconnect r (log (SendError (clientId (objs s ! r))) Err ?s0)"
        using True by (simp add: h sendToClient_throws)
      have ok1: "registry_ok (log (SendError (clientId (objs s ! r))) Err ?s0)" using ok0 by simp
      have i1: "i < length (objs (log (SendError (clientId (objs s ! r))) Err ?s0))"
        using assms(2) by simp
      have n: "objs (relayMessage m s) ! i =
         (if i \<in> snd ` set (clients (relayMessage m s)) \<and> readyState (socket (objs s ! i)) = OPEN
             \<and> \<not> sendThrows (socket (objs s ! i))
          then (objs s ! i)\<lparr>socket := (socket (objs s ! i))
                 \<lparr>sent := sent (socket (objs s ! i)) @ [Peers (map fst (clients (relayMessage m s)))]\<rparr>\<rparr>
          else objs s ! i)"
        using handleDisconnect_nth [OF ok1 i1, of r] by (simp add: h')
      have "\<not> (map_of (clients s) t = Some i \<and> readyState (socket (objs s ! i)) = OPEN
                \<and> \<not> sendThrows (socket (objs s ! i)))"
        using True Some by auto
      then show ?thesis using t Some by (auto simp: n)
    next
      case False
      then have nf: "readyState (socket (objs ?s0 ! r)) = OPEN \<longrightarrow> \<not> sendThrows (socket (objs ?s0 ! r))"
        by simp
      have h': "relayMessage m s =
        ?s0\<lparr>objs := (objs s)[r := (objs s ! r)\<lparr>socket := (socket (objs s ! r))
            \<lparr>sent := sent (socket (objs s ! r)) @
                 (if readyState (socket (objs s ! r)) = OPEN then [Relayed m] else [])\<rparr>\<rparr>]\<rparr>"
        using sendToClient_no_failure [OF nf, of "Relayed m"] by (simp add: h)
      show ?thesis
      proof (cases "i = r")
        case True
        then show ?thesis using t Some r False by (auto simp: h')
      next
        case False
        then show ?thesis using t Some by (simp add: h')
      qed
    qed
  qed
qed

text \<open>
  An offer for alice reaches alice and not its sender; an offer for nobody reaches no one.
\<close>

theorem relay_delivery_witness:
  "sent (socket (objs (relayMessage (offer_msg ''temp-b'' ''alice'') alice_and_guest) ! 0)) =
     sent (socket (objs alice_and_guest ! 0)) @ [Relayed (offer_msg ''temp-b'' ''alice'')]
   \<and> sent (socket (objs (relayMessage (offer_msg ''temp-b'' ''alice'') alice_and_guest) ! 1)) \<noteq>
     sent (socket (objs alice_and_guest ! 1)) @ [Relayed (offer_msg ''temp-b'' ''alice'')]
   \<and> objs (relayMessage (offer_msg ''temp-b'' ''nobody'') alice_and_guest) = objs alice_and_guest"
proof -
  have cl: "clients alice_and_guest = [(''alice'', 0), (''temp-b'', 1)]"
    and o: "objs alice_and_guest = [\<lparr>clientId = ''alice'',
              socket = \<lparr>readyState = OPEN, sendThrows = False,
                        sent = [Welcome ''temp-a'', Registered ''alice'', Peers [''alice'']],
                        terminated = False\<rparr>, lastSeen = 10\<rparr>,
             \<lparr>clientId = ''temp-b'',
              socket = \<lparr>readyState = OPEN, sendThrows = False,
                        sent = [Welcome ''temp-b''], terminated = False\<rparr>, lastSeen = 20\<rparr>]"
    by (simp_all add: alice_and_guest_def run_simps)
  have ok: "registry_ok alice_and_guest" by (simp add: registry_ok_def cl o)
  have i0: "(0::nat) < length (objs alice_and_guest)"
    and i1: "(1::nat) < length (objs alice_and_guest)" by (simp_all add: o)
  have t: "target (offer_msg ''temp-b'' x) = Some x" for x
    by (simp add: offer_msg_def msg_def)
  have a: "sent (socket (objs (relayMessage (offer_msg ''temp-b'' ''alice'') alice_and_guest) ! 0)) =
     sent (socket (objs alice_and_guest ! 0)) @ [Relayed (offer_msg ''temp-b'' ''alice'')]"
    using relay_delivery [OF ok i0, of "offer_msg ''temp-b'' ''alice''"] by (simp add: t cl o)
  have b: "sent (socket (objs (relayMessage (offer_msg ''temp-b'' ''alice'') alice_and_guest) ! 1)) \<noteq>
     sent (socket (objs alice_and_guest ! 1)) @ [Relayed (offer_msg ''temp-b'' ''alice'')]"
    using relay_delivery [OF ok i1, of "offer_msg ''temp-b'' ''alice''"] by (simp add: t cl)
  have c: "objs (relayMessage (offer_msg ''temp-b'' ''nobody'') alice_and_guest) = objs alice_and_guest"
    using relay_delivery [OF ok i0, of "offer_msg ''temp-b'' ''nobody''"] by (simp add: t cl)
  show ?thesis using a b c by simp
qed

text \<open>
  C3 as stated fails: alice is in the registry, the socket behind it is no longer open, and
  \<open>sendToClient\<close> skips the write.
\<close>

theorem registered_target_not_open_gets_nothing:
  "map_of (clients alice_closing) ''alice'' = Some 0
   \<and> target (offer_msg ''temp-b'' ''alice'') = Some ''alice''
   \<and> Relayed (offer_msg ''temp-b'' ''alice'')
        \<notin> set (sent (socket (objs (relayMessage (offer_msg ''temp-b'' ''alice'') alice_closing) ! 0)))"
  by (simp add: alice_closing_def run_simps)

subsection \<open>Client objects without an entry\<close>

text \<open>
  The registry invariant holds in every state the server can reach
  (\<open>registry_ok_run\<close>, from \<open>registry_ok_init\<close>): ids are keys of at most one entry,
  and every entry's record carries its key. What the invariant does not say is that a
  client object whose handlers are still installed has an entry. For a client that has
  one, deleting by the record's id removes that entry and no other:
\<close>

lemma delete_own_entry:
  assumes "registry_ok s" and "(k, r) \<in> set (clients s)"
  shows "AList.delete (clientId (objs s ! r)) (clients s) = removeAll (k, r) (clients s)"
proof -
  have k: "clientId (objs s ! r) = k" using assms by (rule registry_ok_entry(2))
  have "(fst e \<noteq> k) = (e \<noteq> (k, r))" if e: "e \<in> set (clients s)" for e
  proof (cases "fst e = k")
    case True
    have "map_of (clients s) (fst e) = Some (snd e)"
      using registry_ok_entry(3) [OF assms(1), of "fst e" "snd e"] e by simp
    moreover have "map_of (clients s) k = Some r" using assms by (rule registry_ok_entry(3))
    ultimately have "snd e = r" using True by simp
    then show ?thesis using True by (simp add: prod_eq_iff)
  next
    case False
    then show ?thesis by auto
  qed
  then have "filter (\<lambda>e. fst e \<noteq> k) (clients s) = filter (\<lambda>e. e \<noteq> (k, r)) (clients s)"
    by (intro filter_cong) simp_all
  then show ?thesis
    by (simp add: k AList.delete_eq case_prod_unfold removeAll_filter_not_eq neq_commute)
qed

text \<open>
  C1. \<open>handleRegister\<close> compares the \<open>id\<close> of the record found under the requested
  id with the requester's \<open>id\<close>, not the two connections. A client object that has lost
  its entry keeps its \<open>id\<close>; once another connection holds that id, a register frame of
  the first for the same id passes the check. In \<open>stale_alice\<close> the id alice maps to
  client object 1; client object 0 then asks for alice: it is answered with
  \<open>registered\<close>, not with the error, alice maps to 0, and object 1, whose connection is
  still open, has no entry left.
\<close>

theorem stale_register_replaces_holder:
  "map_of (clients stale_alice) ''alice'' = Some 1
   \<and> map_of (clients (step stale_alice (Message 0 (Parsed (register_msg ''alice'')) 50))) ''alice''
       = Some 0
   \<and> 1 \<notin> snd ` set (clients (step stale_alice (Message 0 (Parsed (register_msg ''alice'')) 50)))
   \<and> last (sent (socket (objs (step stale_alice (Message 0 (Parsed (register_msg ''alice'')) 50)) ! 0)))
       = Peers [''alice'']
   \<and> ErrorMsg ''Peer ID already in use''
       \<notin> set (sent (socket (objs (step stale_alice (Message 0 (Parsed (register_msg ''alice'')) 50)) ! 0)))"
  by (simp add: stale_alice_def run_simps)

text \<open>
  C9. \<open>handleDisconnect\<close> deletes whatever entry is under the \<open>id\<close> of the record it
  is given. Both the \<open>error\<close> and the \<open>close\<close> handler of a socket call it; when
  another connection has registered the id between the two, the second call removes that
  connection's entry: in \<open>before_late_close\<close> alice maps to client object 1, and the
  \<open>close\<close> of the socket of object 0 empties the registry while the socket of object 1
  is open and was never terminated.
\<close>

theorem late_close_removes_other_client:
  "clients before_late_close = [(''alice'', 1)]
   \<and> clientId (objs before_late_close ! 0) = ''alice''
   \<and> clients (step before_late_close (Close 0)) = []
   \<and> readyState (socket (objs (step before_late_close (Close 0)) ! 1)) = OPEN
   \<and> \<not> terminated (socket (objs (step before_late_close (Close 0)) ! 1))"
  by (simp add: before_late_close_def run_simps)

end
